theory Spec2Isabelle
  imports Main "HOL-Library.Word"
begin

section \<open>Python strings and bytes\<close>

text \<open>
  A Python \<open>str\<close> is a sequence of Unicode code points, a \<open>bytes\<close> object a sequence
  of octets.  Code points are natural numbers, so that the line separators beyond Latin-1
  that \<open>str.splitlines\<close> knows are part of the model.
\<close>

type_synonym codepoint = nat
type_synonym pystr = "codepoint list"
type_synonym byte = "8 word"
type_synonym pybytes = "byte list"

definition str :: "string \<Rightarrow> pystr" where
  \<comment> \<open>an ASCII literal of the source, as a Python string\<close>
  "str s = map of_char s"

definition NL :: codepoint where "NL = 10"
definition CR :: codepoint where "CR = 13"
definition BACKSLASH :: codepoint where "BACKSLASH = 92"
definition EQUALS :: codepoint where "EQUALS = 61"
definition SEMICOLON :: codepoint where "SEMICOLON = 59"
definition HASH :: codepoint where "HASH = 35"
definition COMMA :: codepoint where "COMMA = 44"
definition SPACE :: codepoint where "SPACE = 32"
definition TAB :: codepoint where "TAB = 9"

lemmas cp_defs = NL_def CR_def BACKSLASH_def EQUALS_def SEMICOLON_def HASH_def
  COMMA_def SPACE_def TAB_def

subsection \<open>\<open>sep.join(parts)\<close>\<close>

fun join :: "'a list \<Rightarrow> 'a list list \<Rightarrow> 'a list" where
  "join sep [] = []"
| "join sep [p] = p"
| "join sep (p # q # ps) = p @ sep @ join sep (q # ps)"

subsection \<open>\<open>s.replace(old, new)\<close>\<close>

text \<open>
  Left to right, non-overlapping occurrences of \<open>old\<close>.  For the empty \<open>old\<close> Python
  puts \<open>new\<close> before every character and at the end.
\<close>

fun replace_empty :: "'a list \<Rightarrow> 'a list \<Rightarrow> 'a list" where
  "replace_empty new [] = new"
| "replace_empty new (c # cs) = new @ c # replace_empty new cs"

function replace_nonempty :: "'a list \<Rightarrow> 'a list \<Rightarrow> 'a list \<Rightarrow> 'a list" where
  "replace_nonempty old new s =
     (if s = [] \<or> old = [] then s
      else if take (length old) s = old
        then new @ replace_nonempty old new (drop (length old) s)
        else hd s # replace_nonempty old new (tl s))"
  by pat_completeness auto
termination
  by (relation "measure (\<lambda>(old, new, s). length s)") auto

declare replace_nonempty.simps [simp del]

definition replace :: "'a list \<Rightarrow> 'a list \<Rightarrow> 'a list \<Rightarrow> 'a list" where
  \<comment> \<open>\<open>replace old new s\<close> is \<open>s.replace(old, new)\<close>\<close>
  "replace old new s = (if old = [] then replace_empty new s else replace_nonempty old new s)"

section \<open>The metadata escaper\<close>

definition escape_ffmeta :: "pystr \<Rightarrow> pystr" where
  \<comment> \<open>\<open>_escape_ffmeta\<close>, lines 14 to 26\<close>
  "escape_ffmeta s =
     replace [NL] [BACKSLASH, NL]
       (replace [HASH] [BACKSLASH, HASH]
         (replace [SEMICOLON] [BACKSLASH, SEMICOLON]
           (replace [EQUALS] [BACKSLASH, EQUALS]
             (replace [BACKSLASH] [BACKSLASH, BACKSLASH] s))))"

text \<open>
  The escaper in the specification's words: five global substitutions of one character
  each, one after the other.
\<close>

definition subst_char :: "'a \<Rightarrow> 'a list \<Rightarrow> 'a list \<Rightarrow> 'a list" where
  "subst_char c r s = concat (map (\<lambda>x. if x = c then r else [x]) s)"

definition spec_escape :: "pystr \<Rightarrow> pystr" where
  "spec_escape s =
     subst_char NL [BACKSLASH, NL]
       (subst_char HASH [BACKSLASH, HASH]
         (subst_char SEMICOLON [BACKSLASH, SEMICOLON]
           (subst_char EQUALS [BACKSLASH, EQUALS]
             (subst_char BACKSLASH [BACKSLASH, BACKSLASH] s))))"

definition escape_char :: "codepoint \<Rightarrow> pystr" where
  \<comment> \<open>what the five substitutions together do to one character of the input\<close>
  "escape_char c =
     (if c = BACKSLASH \<or> c = EQUALS \<or> c = SEMICOLON \<or> c = HASH \<or> c = NL
      then [BACKSLASH, c] else [c])"

section \<open>The metadata document\<close>

definition ffmeta_lines :: "(pystr \<times> pystr) list \<Rightarrow> pystr list" where
  \<comment> \<open>lines 110 to 112: the header, then one line per item of the dictionary, in order\<close>
  "ffmeta_lines items =
     foldl (\<lambda>ls (k, v). ls @ [k @ [EQUALS] @ escape_ffmeta v]) [str '';FFMETADATA1''] items"

definition ffmeta_content :: "(pystr \<times> pystr) list \<Rightarrow> pystr" where
  \<comment> \<open>line 113\<close>
  "ffmeta_content items = join [NL] (ffmeta_lines items) @ [NL]"

section \<open>The radix-64 chunk encoder\<close>

subsection \<open>\<open>s.rstrip(chars)\<close>, slices and \<open>range\<close>\<close>

text \<open>
  \<open>rstrip\<close> moves the end of the string to the left while the last character is one of
  \<open>chars\<close>.  A slice \<open>s[i:j]\<close> is clamped to the string, and \<open>range(0, n, step)\<close>
  holds the multiples of \<open>step\<close> below \<open>n\<close>.
\<close>

function rstrip :: "'a list \<Rightarrow> 'a list \<Rightarrow> 'a list" where
  "rstrip chars s = (if s \<noteq> [] \<and> last s \<in> set chars then rstrip chars (butlast s) else s)"
  by pat_completeness auto
termination
  by (relation "measure (\<lambda>(chars, s). length s)") auto

declare rstrip.simps [simp del]

definition slice :: "'a list \<Rightarrow> nat \<Rightarrow> nat \<Rightarrow> 'a list" where
  "slice s i j = take (j - i) (drop i s)"

definition range_step :: "nat \<Rightarrow> nat \<Rightarrow> nat list" where
  "range_step n step = map (\<lambda>k. k * step) [0 ..< (n + step - 1) div step]"

subsection \<open>\<open>base64.b64encode\<close>\<close>

text \<open>
  The standard library's encoder (RFC 4648, standard alphabet): every three octets make a
  24-bit group that is written as four characters; a final group of one or two octets is
  filled with zero bits and written as two or three characters and \<open>=\<close> padding.  The
  result is ASCII, so \<open>.decode("ascii")\<close> changes nothing.
\<close>

definition b64_alphabet :: pystr where
  "b64_alphabet = str ''ABCDEFGHIJKLMNOPQRSTUVWXYZabcdefghijklmnopqrstuvwxyz0123456789+/''"

definition b64_char :: "nat \<Rightarrow> codepoint" where
  "b64_char n = b64_alphabet ! n"

definition sextets :: "nat \<Rightarrow> nat list" where
  \<comment> \<open>the four 6-bit groups of a 24-bit group, most significant first\<close>
  "sextets n = [n div 262144, n div 4096 mod 64, n div 64 mod 64, n mod 64]"

fun b64encode :: "pybytes \<Rightarrow> pystr" where
  "b64encode (a # b # c # rest) =
     map b64_char (sextets (unat a * 65536 + unat b * 256 + unat c)) @ b64encode rest"
| "b64encode [a, b] =
     map b64_char (take 3 (sextets (unat a * 65536 + unat b * 256))) @ [EQUALS]"
| "b64encode [a] =
     map b64_char (take 2 (sextets (unat a * 65536))) @ [EQUALS, EQUALS]"
| "b64encode [] = []"

subsection \<open>\<open>_b64_strip_and_chunk\<close>, lines 8 to 12\<close>

definition b64_strip_and_chunk :: "pybytes \<Rightarrow> pystr" where
  "b64_strip_and_chunk raw_bytes =
     (let b64 = rstrip [EQUALS] (b64encode raw_bytes);
          parts = map (\<lambda>i. slice b64 i (i + 76)) (range_step (length b64) 76)
      in join [NL] parts @ [NL])"


text \<open>
  The encoder in the specification's words: drop the trailing padding, cut the rest into
  consecutive pieces of at most 76 characters, join them with newlines, append a newline.
\<close>

definition strip_padding :: "pystr \<Rightarrow> pystr" where
  "strip_padding s = rev (dropWhile (\<lambda>c. c = EQUALS) (rev s))"

function chunks_of :: "nat \<Rightarrow> 'a list \<Rightarrow> 'a list list" where
  "chunks_of m s = (if s = [] \<or> m = 0 then [] else take m s # chunks_of m (drop m s))"
  by pat_completeness auto
termination
  by (relation "measure (\<lambda>(m, s). length s)") auto

declare chunks_of.simps [simp del]

definition spec_chunk_encode :: "pybytes \<Rightarrow> pystr" where
  "spec_chunk_encode B = join [NL] (chunks_of 76 (strip_padding (b64encode B))) @ [NL]"

text \<open>The lines of a text: \<open>s.split(c)\<close>.\<close>

fun split_on :: "'a \<Rightarrow> 'a list \<Rightarrow> 'a list list" where
  "split_on c [] = [[]]"
| "split_on c (x # xs) =
     (if x = c then [] # split_on c xs
      else (case split_on c xs of l # ls \<Rightarrow> (x # l) # ls | [] \<Rightarrow> [[x]]))"

subsection \<open>Decoding\<close>

text \<open>
  The reader's side of the round trip, after RFC 4648: a decoder for padded base64 text in
  groups of four characters, padding allowed in the last group only; \<open>None\<close> for
  anything else.  Before it, the newlines are removed and the padding is restored from
  the length.
\<close>

fun index_of :: "'a list \<Rightarrow> 'a \<Rightarrow> nat option" where
  "index_of [] c = None"
| "index_of (x # xs) c = (if x = c then Some 0 else map_option Suc (index_of xs c))"

definition b64_index :: "codepoint \<Rightarrow> nat option" where
  "b64_index c = index_of b64_alphabet c"

definition octets :: "nat \<Rightarrow> pybytes" where
  \<comment> \<open>the three octets of a 24-bit group, most significant first\<close>
  "octets n = [of_nat (n div 65536), of_nat (n div 256 mod 256), of_nat (n mod 256)]"

definition decode_quad :: "codepoint \<Rightarrow> codepoint \<Rightarrow> codepoint \<Rightarrow> codepoint \<Rightarrow> pybytes option" where
  "decode_quad a b c d =
     (if c = EQUALS \<and> d = EQUALS then
        (case (b64_index a, b64_index b) of
           (Some x, Some y) \<Rightarrow> Some (take 1 (octets ((x * 64 + y) * 4096)))
         | _ \<Rightarrow> None)
      else if d = EQUALS then
        (case (b64_index a, b64_index b, b64_index c) of
           (Some x, Some y, Some z) \<Rightarrow> Some (take 2 (octets (((x * 64 + y) * 64 + z) * 64)))
         | _ \<Rightarrow> None)
      else
        (case (b64_index a, b64_index b, b64_index c, b64_index d) of
           (Some x, Some y, Some z, Some w) \<Rightarrow> Some (octets (((x * 64 + y) * 64 + z) * 64 + w))
         | _ \<Rightarrow> None))"

fun b64decode :: "pystr \<Rightarrow> pybytes option" where
  "b64decode [] = Some []"
| "b64decode (a # b # c # d # rest) =
     (case decode_quad a b c d of
        None \<Rightarrow> None
      | Some bs \<Rightarrow>
          if rest \<noteq> [] \<and> d = EQUALS then None
          else map_option (\<lambda>tl. bs @ tl) (b64decode rest))"
| "b64decode _ = None"

definition remove_newlines :: "pystr \<Rightarrow> pystr" where
  "remove_newlines s = filter (\<lambda>c. c \<noteq> NL) s"

definition restore_padding :: "pystr \<Rightarrow> pystr" where
  "restore_padding s = s @ replicate ((4 - length s mod 4) mod 4) EQUALS"

section \<open>The CSV normaliser\<close>

subsection \<open>\<open>s.splitlines()\<close>\<close>

text \<open>
  The line boundaries of \<open>str.splitlines\<close>: line feed, vertical tab, form feed, carriage
  return, the file, group and record separators, next line, line separator and paragraph
  separator.  The scan ends a line at each of them, takes CR LF as one boundary, and adds
  a last line only when characters are left after the last boundary.
\<close>

definition is_linebreak :: "codepoint \<Rightarrow> bool" where
  "is_linebreak c = (c \<in> set [10, 11, 12, 13, 28, 29, 30, 133, 8232, 8233])"

definition after_break :: "codepoint \<Rightarrow> pystr \<Rightarrow> pystr" where
  \<comment> \<open>a carriage return and the line feed after it are one line break\<close>
  "after_break c cs = (if c = CR \<and> take 1 cs = [NL] then drop 1 cs else cs)"

function splitlines_from :: "pystr \<Rightarrow> pystr \<Rightarrow> pystr list" where
  "splitlines_from cur [] = (if cur = [] then [] else [cur])"
| "splitlines_from cur (c # cs) =
     (if is_linebreak c then cur # splitlines_from [] (after_break c cs)
      else splitlines_from (cur @ [c]) cs)"
  by pat_completeness auto
termination
  by (relation "measure (\<lambda>(cur, s). length s)") (auto simp add: after_break_def)

definition splitlines :: "pystr \<Rightarrow> pystr list" where
  "splitlines s = splitlines_from [] s"

subsection \<open>Lines 88 to 90 of \<open>embed\<close>\<close>

definition csv_lines :: "pystr \<Rightarrow> pystr list" where
  \<comment> \<open>line 88\<close>
  "csv_lines csv_text = map (rstrip [CR, NL]) (splitlines csv_text)"

definition norm_lines :: "pystr \<Rightarrow> pystr list" where
  \<comment> \<open>line 89\<close>
  "norm_lines csv_text = map (\<lambda>ln. rstrip [COMMA, SPACE, TAB] ln @ [COMMA]) (csv_lines csv_text)"

definition author_text :: "pystr \<Rightarrow> pystr" where
  \<comment> \<open>line 90, before the encoding\<close>
  "author_text csv_text = join [CR, NL] (norm_lines csv_text) @ [CR, NL]"

text \<open>
  \<open>.encode("utf-8")\<close>: one to four octets for a code point, and an error for a
  surrogate.  A Python string holds no code point above \<open>0x10FFFF\<close>.
\<close>

datatype py_error = UnicodeEncodeError | RuntimeError | CalledProcessError | OSError | TypeError

fun utf8_char :: "codepoint \<Rightarrow> py_error + pybytes" where
  "utf8_char c =
     (if c < 128 then Inr [of_nat c]
      else if c < 2048 then Inr [of_nat (192 + c div 64), of_nat (128 + c mod 64)]
      else if 55296 \<le> c \<and> c < 57344 then Inl UnicodeEncodeError
      else if c < 65536 then
        Inr [of_nat (224 + c div 4096), of_nat (128 + c div 64 mod 64), of_nat (128 + c mod 64)]
      else
        Inr [of_nat (240 + c div 262144), of_nat (128 + c div 4096 mod 64),
             of_nat (128 + c div 64 mod 64), of_nat (128 + c mod 64)])"

fun utf8_encode :: "pystr \<Rightarrow> py_error + pybytes" where
  "utf8_encode [] = Inr []"
| "utf8_encode (c # cs) =
     (case utf8_char c of
        Inl e \<Rightarrow> Inl e
      | Inr bs \<Rightarrow> (case utf8_encode cs of Inl e \<Rightarrow> Inl e | Inr rest \<Rightarrow> Inr (bs @ rest)))"

definition author_raw :: "pystr \<Rightarrow> py_error + pybytes" where
  \<comment> \<open>line 90\<close>
  "author_raw csv_text = utf8_encode (author_text csv_text)"

text \<open>
  The normaliser in the specification's words, and the normal form of its output.
\<close>

definition strip_trailing :: "pystr \<Rightarrow> pystr" where
  "strip_trailing ln = rev (dropWhile (\<lambda>c. c = COMMA \<or> c = SPACE \<or> c = TAB) (rev ln))"

definition spec_normalize :: "pystr \<Rightarrow> pystr" where
  "spec_normalize t =
     join [CR, NL] (map (\<lambda>ln. strip_trailing ln @ [COMMA]) (splitlines t)) @ [CR, NL]"

definition normalized_lines :: "pystr list \<Rightarrow> bool" where
  \<comment> \<open>at least one line; no line holds a line break or ends in a comma, space or tab\<close>
  "normalized_lines ls =
     (ls \<noteq> [] \<and>
      list_all (\<lambda>l. list_all (\<lambda>c. \<not> is_linebreak c) l \<and>
                     (l = [] \<or> last l \<notin> set [COMMA, SPACE, TAB])) ls)"

definition render_lines :: "pystr list \<Rightarrow> pystr" where
  \<comment> \<open>every line followed by one comma and CRLF\<close>
  "render_lines ls = concat (map (\<lambda>l. l @ [COMMA, CR, NL]) ls)"

section \<open>The deflate compressor\<close>

text \<open>
  Modelled from the spec: the Deflate Compressor is \<open>zlib.compress\<close> of the standard
  library at level 9, which is not part of the repository.  The specification (4.2) has
  it produce a zlib-format deflate stream at the highest compression level.  A zlib
  stream (RFC 1950) is the header octets \<open>78 DA\<close> for a 32K window at the highest level,
  the deflate data, and the Adler-32 checksum of the input, most significant octet first.
  For the empty input zlib writes one final block of fixed Huffman codes that holds only
  the end-of-block code, the octets \<open>03 00\<close>.
\<close>

definition adler32 :: "pybytes \<Rightarrow> nat" where
  "adler32 bs =
     (let (a, b) = fold (\<lambda>x (a, b). let a' = (a + unat x) mod 65521 in (a', (b + a') mod 65521))
                        bs (1, 0)
      in b * 65536 + a)"

definition be32 :: "nat \<Rightarrow> pybytes" where
  "be32 n = [of_nat (n div 16777216), of_nat (n div 65536 mod 256),
             of_nat (n div 256 mod 256), of_nat (n mod 256)]"

definition zlib_stream :: "pybytes \<Rightarrow> pybytes \<Rightarrow> pybytes" where
  \<comment> \<open>\<open>zlib_stream deflated raw\<close>: the stream for \<open>raw\<close> whose deflate data is \<open>deflated\<close>\<close>
  "zlib_stream deflated raw = [0x78, 0xDA] @ deflated @ be32 (adler32 raw)"

definition zlib_compress_empty :: pybytes where
  "zlib_compress_empty = zlib_stream [0x03, 0x00] []"

section \<open>The request handler\<close>

text \<open>
  The handler of \<open>/embed\<close>, lines 46 to 135.  What the web framework, the file system and
  the external tools answer is a parameter: the environment says how each call ends.
  The state is the set of temporary files that exist.
\<close>

record request =
  audio :: "pystr option"  \<comment> \<open>the file name of the uploaded part \<open>audio\<close>, if there is one\<close>
  csv :: "pystr option"    \<comment> \<open>the form field \<open>csv\<close>\<close>
  title :: "pystr option"  \<comment> \<open>the form field \<open>title\<close>\<close>

record env =
  zlib_compress :: "pybytes \<Rightarrow> pybytes"  \<comment> \<open>\<open>zlib.compress(\<cdot>, Z_BEST_COMPRESSION)\<close>\<close>
  ext_is_ogg :: bool        \<comment> \<open>\<open>ext.lower() == ".ogg"\<close> for the secured file name\<close>
  save_ok :: bool           \<comment> \<open>\<open>audio_file.save\<close> returns\<close>
  probe_codec :: "pystr option"  \<comment> \<open>the stripped, lowered output of ffprobe; none if it raised\<close>
  ffmpeg_found :: bool      \<comment> \<open>\<open>FFMPEG\<close> is not \<open>None\<close>\<close>
  transcode_ok :: bool      \<comment> \<open>\<open>subprocess.check_call\<close> returns\<close>
  copy_ok :: bool           \<comment> \<open>\<open>shutil.copyfile\<close> returns\<close>
  inject_ok :: bool         \<comment> \<open>the metadata run of ffmpeg starts and exits with 0\<close>
  send_ok :: bool           \<comment> \<open>\<open>send_file\<close> returns\<close>

datatype tempfile = TmpIn | TmpOgg | TmpOut

datatype response = Abort nat | SendFile | Unhandled py_error

record result =
  response :: response
  files :: "tempfile set"        \<comment> \<open>the temporary files that exist when the request ends\<close>
  injected :: "pystr option"     \<comment> \<open>the metadata document handed to ffmpeg, if it was started\<close>

definition form_title :: "pystr option \<Rightarrow> pystr" where
  \<comment> \<open>line 51: \<open>request.form.get("title") or "Glyph"\<close>\<close>
  "form_title t = (case t of None \<Rightarrow> str ''Glyph'' | Some s \<Rightarrow> if s = [] then str ''Glyph'' else s)"

definition metadata :: "pystr \<Rightarrow> pystr \<Rightarrow> pystr \<Rightarrow> (pystr \<times> pystr) list" where
  \<comment> \<open>lines 100 to 107: the items of the dictionary in insertion order\<close>
  "metadata ttl author_b64 custom1_b64 =
     [(str ''TITLE'', ttl),
      (str ''ALBUM'', str ''Glyph Tools''),
      (str ''AUTHOR'', author_b64),
      (str ''COMPOSER'', str ''v1-Pacman Glyph Composer''),
      (str ''CUSTOM1'', custom1_b64),
      (str ''CUSTOM2'', str ''26cols'')]"

definition transcode_to_ogg_opus :: "env \<Rightarrow> py_error + unit" where
  \<comment> \<open>lines 29 to 39\<close>
  "transcode_to_ogg_opus e =
     (if \<not> ffmpeg_found e then Inl RuntimeError
      else if \<not> transcode_ok e then Inl CalledProcessError
      else Inr ())"

definition prepare_audio :: "env \<Rightarrow> py_error + unit" where
  \<comment> \<open>lines 68 to 83\<close>
  "prepare_audio e =
     (let codec = (case probe_codec e of None \<Rightarrow> [] | Some c \<Rightarrow> c);
          need_transcode = (codec \<noteq> str ''opus'' \<or> \<not> ext_is_ogg e)
      in if need_transcode then transcode_to_ogg_opus e
         else if copy_ok e then Inr () else Inl OSError)"

definition build_document :: "env \<Rightarrow> pystr \<Rightarrow> pystr \<Rightarrow> py_error + pystr" where
  \<comment> \<open>lines 88 to 113\<close>
  "build_document e ttl csv_text =
     (case author_raw csv_text of
        Inl err \<Rightarrow> Inl err
      | Inr raw \<Rightarrow>
          (let custom1_raw = [];
               author_b64 = b64_strip_and_chunk (zlib_compress e raw);
               custom1_b64 = b64_strip_and_chunk (zlib_compress e custom1_raw)
           in Inr (ffmeta_content (metadata ttl author_b64 custom1_b64))))"

definition try_body ::
  "env \<Rightarrow> pystr \<Rightarrow> pystr \<Rightarrow> tempfile set \<Rightarrow> (py_error + unit) \<times> tempfile set \<times> pystr option"
where
  \<comment> \<open>lines 67 to 126: the outcome, the files, and the document given to ffmpeg\<close>
  "try_body e ttl csv_text fs =
     (case prepare_audio e of
        Inl err \<Rightarrow> (Inl err, fs, None)
      | Inr _ \<Rightarrow>
     (case build_document e ttl csv_text of
        Inl err \<Rightarrow> (Inl err, fs, None)
      | Inr doc \<Rightarrow>
          (let fs' = insert TmpOut fs
           in case utf8_encode doc of
                Inl err \<Rightarrow> (Inl err, fs', None)
              | Inr _ \<Rightarrow>
                  if \<not> ffmpeg_found e then (Inl TypeError, fs', None)
                  else if \<not> inject_ok e then (Inl RuntimeError, fs', Some doc)
                  else if \<not> send_ok e then (Inl OSError, fs', Some doc)
                  else (Inr (), fs', Some doc))))"

definition embed :: "env \<Rightarrow> request \<Rightarrow> result" where
  \<comment> \<open>lines 46 to 135.  An upload without a file name counts as missing; a failing
      \<open>save\<close> is outside the \<open>try\<close>; the \<open>finally\<close> block unlinks the saved upload\<close>
  "embed e r =
     (let ttl = form_title (title r)
      in case (audio r, csv r) of
           (Some name, Some csv_text) \<Rightarrow>
             if name = [] then \<lparr>response = Abort 400, files = {}, injected = None\<rparr>
             else if \<not> save_ok e
               then \<lparr>response = Unhandled OSError, files = {TmpIn}, injected = None\<rparr>
             else
               (let (outcome, fs, doc) = try_body e ttl csv_text {TmpIn, TmpOgg}
                in \<lparr>response = (case outcome of Inl _ \<Rightarrow> Abort 500 | Inr _ \<Rightarrow> SendFile),
                     files = fs - {TmpIn},
                     injected = doc\<rparr>)
         | _ \<Rightarrow> \<lparr>response = Abort 400, files = {}, injected = None\<rparr>)"

text \<open>
  An environment for examples: an Ogg Opus upload, every tool present and succeeding.
  \<open>zlib_stored\<close> is a compressor that writes its input as one stored deflate block
  (RFC 1951), a valid zlib stream for inputs shorter than 65536 octets.
\<close>

definition zlib_stored :: "pybytes \<Rightarrow> pybytes" where
  "zlib_stored raw =
     (let n = length raw
      in zlib_stream ([0x01, of_nat (n mod 256), of_nat (n div 256),
                       of_nat (255 - n mod 256), of_nat (255 - n div 256)] @ raw) raw)"

definition env_ok :: "(pybytes \<Rightarrow> pybytes) \<Rightarrow> env" where
  "env_ok z = \<lparr>zlib_compress = z, ext_is_ogg = True, save_ok = True,
              probe_codec = Some (str ''opus''), ffmpeg_found = True, transcode_ok = True,
              copy_ok = True, inject_ok = True, send_ok = True\<rparr>"

definition req_ok :: request where
  "req_ok = \<lparr>audio = Some (str ''a.ogg''), csv = Some (str ''a,b,c''), title = None\<rparr>"

section \<open>Properties\<close>

lemma replace_single:
  "replace [c] r s = subst_char c r s"
proof (induction s)
  case Nil
  show ?case by (simp add: replace_def subst_char_def replace_nonempty.simps)
next
  case (Cons x xs)
  then show ?case
    by (simp add: replace_def subst_char_def replace_nonempty.simps [of "[c]" r "x # xs"])
qed

lemma subst_char_append:
  "subst_char c r (xs @ ys) = subst_char c r xs @ subst_char c r ys"
  by (simp add: subst_char_def)

lemma subst_char_Cons:
  "subst_char c r (x # xs) = (if x = c then r else [x]) @ subst_char c r xs"
  by (simp add: subst_char_def)

lemma subst_char_Nil: "subst_char c r [] = []"
  by (simp add: subst_char_def)

lemma spec_escape_chars:
  "spec_escape s = concat (map escape_char s)"
proof (induction s)
  case Nil
  show ?case by (simp add: spec_escape_def subst_char_Nil)
next
  case (Cons x xs)
  have step: "spec_escape (x # xs) = spec_escape [x] @ spec_escape xs"
    unfolding spec_escape_def
    by (metis append_Cons append_Nil subst_char_append)
  have one: "spec_escape [x] = escape_char x"
    by (simp add: spec_escape_def escape_char_def subst_char_Cons subst_char_Nil cp_defs)
  show ?case using Cons.IH step one by simp
qed


lemma escape_ffmeta_spec: "escape_ffmeta s = spec_escape s"
  by (simp add: escape_ffmeta_def spec_escape_def replace_single)

lemma escape_ffmeta_chars: "escape_ffmeta s = concat (map escape_char s)"
  by (simp add: escape_ffmeta_spec spec_escape_chars)

lemma join_terminated:
  "ps \<noteq> [] \<Longrightarrow> join sep ps @ sep = concat (map (\<lambda>p. p @ sep) ps)"
  by (induction sep ps rule: join.induct) simp_all

lemma ffmeta_lines_foldl:
  "foldl (\<lambda>ls (k, v). ls @ [k @ [EQUALS] @ escape_ffmeta v]) acc items =
   acc @ map (\<lambda>(k, v). k @ [EQUALS] @ escape_ffmeta v) items"
  by (induction items arbitrary: acc) (simp_all add: case_prod_beta)

lemma ffmeta_lines_map:
  "ffmeta_lines items =
   str '';FFMETADATA1'' # map (\<lambda>(k, v). k @ [EQUALS] @ escape_ffmeta v) items"
  unfolding ffmeta_lines_def ffmeta_lines_foldl by simp

lemma ffmeta_content_terminated:
  "ffmeta_content its =
     str '';FFMETADATA1'' @ [NL] @
     concat (map (\<lambda>(k, v). k @ [EQUALS] @ escape_ffmeta v @ [NL]) its)"
  unfolding ffmeta_content_def
  by (subst join_terminated) (simp_all add: ffmeta_lines_map comp_def split_def)

text \<open>
  C2, as amended.  The escaper is the five one-character substitutions of the
  specification in their order: backslash, equals sign, semicolon, hash, newline, the
  newline becoming a backslash and a real newline.  On the eleven characters
  \<open>a=b;c#d\<close>, backslash, \<open>e\<close>, newline, \<open>f\<close> the backslash is doubled: the result holds
  two backslashes before \<open>e\<close>, not four.
\<close>

theorem escape_ffmeta_five_replacements:
  "escape_ffmeta s = spec_escape s \<and>
   escape_ffmeta (str ''a=b;c#d'' @ [BACKSLASH] @ str ''e'' @ [NL] @ str ''f'') =
     str ''a'' @ [BACKSLASH] @ str ''=b'' @ [BACKSLASH] @ str '';c'' @ [BACKSLASH] @ str ''#d''
       @ [BACKSLASH, BACKSLASH] @ str ''e'' @ [BACKSLASH, NL] @ str ''f''"
  by (simp add: escape_ffmeta_spec)
     (simp add: spec_escape_chars escape_char_def str_def cp_defs)

text \<open>
  The example of C2 as the claim words it, with four backslashes in the result, is not
  what the escaper returns.
\<close>

theorem escape_ffmeta_four_backslashes_counterexample:
  "escape_ffmeta (str ''a=b;c#d'' @ [BACKSLASH] @ str ''e'' @ [NL] @ str ''f'') \<noteq>
     str ''a'' @ [BACKSLASH] @ str ''=b'' @ [BACKSLASH] @ str '';c'' @ [BACKSLASH] @ str ''#d''
       @ [BACKSLASH, BACKSLASH, BACKSLASH, BACKSLASH] @ str ''e'' @ [BACKSLASH, NL] @ str ''f''"
  by (simp add: escape_ffmeta_chars escape_char_def str_def cp_defs)

text \<open>
  C3.  The document is the header line \<open>;FFMETADATA1\<close> followed by one line
  \<open>KEY=escaped value\<close> for every pair, in the order given and with nothing dropped,
  merged or checked; the lines are joined with a newline and one newline is appended,
  so every line is newline-terminated.  The single pair TITLE, Glyph gives the header
  line and the line \<open>TITLE=Glyph\<close>.
\<close>

theorem ffmeta_content_document:
  "ffmeta_lines items =
     str '';FFMETADATA1'' # map (\<lambda>(k, v). k @ [EQUALS] @ escape_ffmeta v) items \<and>
   ffmeta_content items = join [NL] (ffmeta_lines items) @ [NL] \<and>
   ffmeta_content items =
     str '';FFMETADATA1'' @ [NL] @
     concat (map (\<lambda>(k, v). k @ [EQUALS] @ escape_ffmeta v @ [NL]) items) \<and>
   length (ffmeta_lines items) = Suc (length items) \<and>
   ffmeta_content [(str ''TITLE'', str ''Glyph'')] =
     str '';FFMETADATA1'' @ [NL] @ str ''TITLE=Glyph'' @ [NL]"
proof -
  have lines: "ffmeta_lines items =
      str '';FFMETADATA1'' # map (\<lambda>(k, v). k @ [EQUALS] @ escape_ffmeta v) items"
    by (rule ffmeta_lines_map)
  note terminated = ffmeta_content_terminated
  have ex: "ffmeta_content [(str ''TITLE'', str ''Glyph'')] =
      str '';FFMETADATA1'' @ [NL] @ str ''TITLE=Glyph'' @ [NL]"
    by (simp add: terminated escape_ffmeta_chars escape_char_def str_def cp_defs)
  have len: "length (ffmeta_lines items) = Suc (length items)"
    by (simp add: lines)
  have joined: "ffmeta_content items = join [NL] (ffmeta_lines items) @ [NL]"
    by (rule ffmeta_content_def)
  from lines joined terminated [of items] len ex show ?thesis
    by blast
qed

subsection \<open>The chunk encoder\<close>


lemma rstrip_Nil: "rstrip cs [] = []"
  by (simp add: rstrip.simps)

lemma rstrip_snoc:
  "rstrip cs (xs @ [x]) = (if x \<in> set cs then rstrip cs xs else xs @ [x])"
  by (subst rstrip.simps) simp

lemma rstrip_dropWhile:
  "rstrip cs s = rev (dropWhile (\<lambda>c. c \<in> set cs) (rev s))"
  by (induction s rule: rev_induct) (simp_all add: rstrip_Nil rstrip_snoc)

lemma rstrip_padding:
  assumes "c \<in> set cs" and "body = [] \<or> last body \<notin> set cs"
  shows "rstrip cs (body @ replicate k c) = body"
proof (induction k)
  case 0
  show ?case
  proof (cases body rule: rev_cases)
    case Nil
    then show ?thesis by (simp add: rstrip_Nil)
  next
    case (snoc ys y)
    then show ?thesis using assms(2) by (simp add: rstrip_snoc)
  qed
next
  case (Suc k)
  have "body @ replicate (Suc k) c = (body @ replicate k c) @ [c]"
    by (simp add: replicate_append_same)
  then show ?case using Suc assms(1) by (simp only: rstrip_snoc if_True)
qed

lemma byte_lt: "unat (a :: byte) < 256"
  using unsigned_less [of a, where 'a = nat] by simp

lemma length_b64_alphabet: "length b64_alphabet = 64"
  by (simp add: b64_alphabet_def str_def)

lemma b64_char_mem: "n < 64 \<Longrightarrow> b64_char n \<in> set b64_alphabet"
  by (simp add: b64_char_def length_b64_alphabet)

lemma EQUALS_not_b64: "EQUALS \<notin> set b64_alphabet"
  by (simp add: b64_alphabet_def str_def EQUALS_def)

lemma NL_not_b64: "NL \<notin> set b64_alphabet"
  by (simp add: b64_alphabet_def str_def NL_def)

lemma b64_alphabet_codes:
  "b64_alphabet = [65 ..< 91] @ [97 ..< 123] @ [48 ..< 58] @ [43, 47]"
  by (simp add: b64_alphabet_def str_def upt_rec)

lemma distinct_b64_alphabet: "distinct b64_alphabet"
  unfolding b64_alphabet_codes by (simp add: disjoint_iff)

lemma index_of_nth:
  "distinct xs \<Longrightarrow> n < length xs \<Longrightarrow> index_of xs (xs ! n) = Some n"
proof (induction xs arbitrary: n)
  case Nil
  then show ?case by simp
next
  case (Cons x xs)
  show ?case
  proof (cases n)
    case 0
    then show ?thesis by simp
  next
    case (Suc m)
    then have "xs ! m \<in> set xs" using Cons.prems by simp
    then have "x \<noteq> xs ! m" using Cons.prems by auto
    then show ?thesis using Suc Cons by simp
  qed
qed

lemma b64_index_char: "n < 64 \<Longrightarrow> b64_index (b64_char n) = Some n"
  by (simp add: b64_index_def b64_char_def index_of_nth distinct_b64_alphabet length_b64_alphabet)

lemma b64_char_not_EQUALS: "n < 64 \<Longrightarrow> b64_char n \<noteq> EQUALS"
  using b64_char_mem EQUALS_not_b64 by metis






lemma sextets_lt: "n < 16777216 \<Longrightarrow> x \<in> set (sextets n) \<Longrightarrow> x < 64"
  by (auto simp add: sextets_def less_mult_imp_div_less)

lemma length_sextets: "length (sextets n) = 4"
  by (simp add: sextets_def)

lemma group3_lt:
  "unat (a :: byte) * 65536 + unat (b :: byte) * 256 + unat (c :: byte) < 16777216"
  using byte_lt [of a] byte_lt [of b] byte_lt [of c] by arith

lemma group2_lt: "unat (a :: byte) * 65536 + unat (b :: byte) * 256 < 16777216"
  using byte_lt [of a] byte_lt [of b] by arith

lemma group1_lt: "unat (a :: byte) * 65536 < 16777216"
  using byte_lt [of a] by arith

lemma b64_chars_in_alphabet:
  assumes "n < 16777216"
  shows "set (map b64_char (take j (sextets n))) \<subseteq> set b64_alphabet"
proof
  fix c assume "c \<in> set (map b64_char (take j (sextets n)))"
  then obtain x where x: "x \<in> set (take j (sextets n))" "c = b64_char x" by auto
  then have "x \<in> set (sextets n)" by (meson in_set_takeD)
  then have "x < 64" using assms sextets_lt by blast
  then show "c \<in> set b64_alphabet" using x(2) b64_char_mem by simp
qed



lemma b64encode_shape:
  "\<exists>body k. b64encode B = body @ replicate k EQUALS \<and> set body \<subseteq> set b64_alphabet \<and> k < 3"
proof (induction B rule: b64encode.induct)
  case (1 a b c rest)
  then obtain body k where
    IH: "b64encode rest = body @ replicate k EQUALS" "set body \<subseteq> set b64_alphabet" "k < 3"
    by blast
  define q where "q = map b64_char (sextets (unat a * 65536 + unat b * 256 + unat c))"
  have "q = map b64_char (take 4 (sextets (unat a * 65536 + unat b * 256 + unat c)))"
    by (simp add: q_def length_sextets)
  then have "set q \<subseteq> set b64_alphabet"
    using b64_chars_in_alphabet [OF group3_lt] by simp
  moreover have "b64encode (a # b # c # rest) = (q @ body) @ replicate k EQUALS"
    by (simp add: IH(1) q_def)
  ultimately show ?case using IH(2,3)
    by (intro exI [of _ "q @ body"] exI [of _ k]) simp
next
  case (2 a b)
  define q where "q = map b64_char (take 3 (sextets (unat a * 65536 + unat b * 256)))"
  have "set q \<subseteq> set b64_alphabet"
    unfolding q_def by (rule b64_chars_in_alphabet [OF group2_lt])
  moreover have "b64encode [a, b] = q @ replicate 1 EQUALS"
    by (simp add: q_def)
  ultimately show ?case
    by (intro exI [of _ q] exI [of _ 1]) simp
next
  case (3 a)
  define q where "q = map b64_char (take 2 (sextets (unat a * 65536)))"
  have "set q \<subseteq> set b64_alphabet"
    unfolding q_def by (rule b64_chars_in_alphabet [OF group1_lt])
  moreover have "b64encode [a] = q @ replicate 2 EQUALS"
    by (simp add: q_def numeral_2_eq_2)
  ultimately show ?case
    by (intro exI [of _ q] exI [of _ 2]) simp
next
  case 4
  show ?case by (intro exI [of _ "[]"] exI [of _ 0]) simp
qed



lemma length_b64encode: "length (b64encode B) mod 4 = 0"
  by (induction B rule: b64encode.induct) (simp_all add: length_sextets)

lemma rstrip_b64encode:
  assumes "b64encode B = body @ replicate k EQUALS" and "set body \<subseteq> set b64_alphabet"
  shows "rstrip [EQUALS] (b64encode B) = body"
proof -
  have "body = [] \<or> last body \<notin> set [EQUALS]"
  proof (cases "body = []")
    case False
    then have "last body \<in> set b64_alphabet" using assms(2) last_in_set by blast
    then show ?thesis using EQUALS_not_b64 by auto
  qed simp
  then show ?thesis unfolding assms(1) by (intro rstrip_padding) simp_all
qed

lemma pad_arith:
  fixes m k :: nat
  assumes "m < 4" "k < 3" "(m + k) mod 4 = 0"
  shows "(4 - m) mod 4 = k"
proof -
  from assms(1) have m: "m = 0 \<or> m = 1 \<or> m = 2 \<or> m = 3" by linarith
  from assms(2) have k: "k = 0 \<or> k = 1 \<or> k = 2" by linarith
  from m k assms(3) show ?thesis by (elim disjE) simp_all
qed

lemma restore_padding_body:
  assumes "b64encode B = body @ replicate k EQUALS" and "k < 3"
  shows "restore_padding body = b64encode B"
proof -
  have "(length body + k) mod 4 = 0"
    using length_b64encode [of B] by (simp add: assms(1))
  then have "(length body mod 4 + k) mod 4 = 0"
    by (simp add: mod_add_left_eq)
  then have "(4 - length body mod 4) mod 4 = k"
    using assms(2) by (intro pad_arith) simp_all
  then show ?thesis by (simp add: restore_padding_def assms(1))
qed

lemma unsextets:
  "((n div 262144 * 64 + n div 4096 mod 64) * 64 + n div 64 mod 64) * 64 + n mod 64 = (n::nat)"
proof -
  have "n div 4096 div 64 = n div 262144" by (simp add: div_mult2_eq [symmetric])
  then have a: "n div 262144 * 64 + n div 4096 mod 64 = n div 4096"
    using div_mult_mod_eq [of "n div 4096" 64] by simp
  have "n div 64 div 64 = n div 4096" by (simp add: div_mult2_eq [symmetric])
  then have b: "n div 4096 * 64 + n div 64 mod 64 = n div 64"
    using div_mult_mod_eq [of "n div 64" 64] by simp
  show ?thesis unfolding a b by simp
qed

lemma decode_full_group:
  assumes "n < 16777216"
  shows "b64decode (map b64_char (sextets n) @ rest) =
         map_option (\<lambda>tl. octets n @ tl) (b64decode rest)"
proof -
  have lt: "n div 262144 < 64" "n div 4096 mod 64 < 64" "n div 64 mod 64 < 64" "n mod 64 < 64"
    using assms by (simp_all add: less_mult_imp_div_less)
  have q: "decode_quad (b64_char (n div 262144)) (b64_char (n div 4096 mod 64))
             (b64_char (n div 64 mod 64)) (b64_char (n mod 64)) = Some (octets n)"
    unfolding decode_quad_def
    by (simp only: b64_index_char [OF lt(1)] b64_index_char [OF lt(2)] b64_index_char [OF lt(3)]
        b64_index_char [OF lt(4)] b64_char_not_EQUALS [OF lt(3)] b64_char_not_EQUALS [OF lt(4)]
        unsextets simp_thms if_False prod.case option.case)
  show ?thesis
    unfolding sextets_def
    by (simp add: q b64_char_not_EQUALS [OF lt(4)])
qed

lemma of_nat_unat_byte: "of_nat (unat (a :: byte)) = a"
  by simp

lemma octets_group3:
  "octets (unat a * 65536 + unat b * 256 + unat c) = [a, b, c]"
proof -
  define x y z where "x = unat a" and "y = unat b" and "z = unat c"
  have lt: "x < 256" "y < 256" "z < 256"
    unfolding x_def y_def z_def by (rule byte_lt)+
  have r: "y * 256 + z < 65536" using lt by linarith
  have "(x * 65536 + y * 256 + z) div 65536 = x"
    using r by (simp add: add.assoc)
  moreover have "(x * 65536 + y * 256 + z) div 256 = x * 256 + y"
    using lt(3) by simp
  moreover have "(x * 256 + y) mod 256 = y" using lt(2) by simp
  moreover have "(x * 65536 + y * 256 + z) mod 256 = z"
  proof -
    have "x * 65536 + y * 256 + z = (x * 256 + y) * 256 + z" by simp
    then show ?thesis using lt(3) by (metis mod_mult_self3 mod_less)
  qed
  ultimately have "octets (x * 65536 + y * 256 + z) = [of_nat x, of_nat y, of_nat z]"
    by (simp add: octets_def)
  then show ?thesis
    unfolding x_def y_def z_def by (simp only: of_nat_unat_byte)
qed

lemma decode_two_bytes:
  "b64decode (map b64_char (take 3 (sextets (unat a * 65536 + unat b * 256))) @ [EQUALS]) =
   Some [a, b]"
proof -
  define n where "n = unat a * 65536 + unat b * 256"
  have n: "n < 16777216" unfolding n_def by (rule group2_lt)
  have lt: "n div 262144 < 64" "n div 4096 mod 64 < 64" "n div 64 mod 64 < 64"
    using n by (simp_all add: less_mult_imp_div_less)
  have "n = (unat a * 1024 + unat b * 4) * 64" unfolding n_def by simp
  then have "n mod 64 = 0" by (metis mod_mult_self2_is_0)
  then have "((n div 262144 * 64 + n div 4096 mod 64) * 64 + n div 64 mod 64) * 64 = n"
    using unsextets [of n] by simp
  then have q: "decode_quad (b64_char (n div 262144)) (b64_char (n div 4096 mod 64))
             (b64_char (n div 64 mod 64)) EQUALS = Some (take 2 (octets n))"
    unfolding decode_quad_def
    by (simp only: b64_index_char [OF lt(1)] b64_index_char [OF lt(2)] b64_index_char [OF lt(3)]
        b64_char_not_EQUALS [OF lt(3)] simp_thms if_False if_True prod.case option.case)
  have "octets n = [a, b, 0]"
    using octets_group3 [of a b 0] by (simp add: n_def)
  then have "take 2 (octets n) = [a, b]" by simp
  then show ?thesis
    unfolding n_def [symmetric] sextets_def by (simp add: q)
qed

lemma decode_one_byte:
  "b64decode (map b64_char (take 2 (sextets (unat a * 65536))) @ [EQUALS, EQUALS]) = Some [a]"
proof -
  define n where "n = unat a * 65536"
  have n: "n < 16777216" unfolding n_def by (rule group1_lt)
  have lt: "n div 262144 < 64" "n div 4096 mod 64 < 64"
    using n by (simp_all add: less_mult_imp_div_less)
  have "n = (unat a * 16) * 4096" unfolding n_def by simp
  then have "n mod 4096 = 0" by (metis mod_mult_self2_is_0)
  then have "n div 4096 * 4096 = n"
    using div_mult_mod_eq [of n 4096] by simp
  moreover have "n div 4096 div 64 = n div 262144" by (simp add: div_mult2_eq [symmetric])
  then have "n div 262144 * 64 + n div 4096 mod 64 = n div 4096"
    using div_mult_mod_eq [of "n div 4096" 64] by simp
  ultimately have "(n div 262144 * 64 + n div 4096 mod 64) * 4096 = n" by simp
  then have q: "decode_quad (b64_char (n div 262144)) (b64_char (n div 4096 mod 64))
             EQUALS EQUALS = Some (take 1 (octets n))"
    unfolding decode_quad_def
    by (simp only: b64_index_char [OF lt(1)] b64_index_char [OF lt(2)]
        simp_thms if_True prod.case option.case)
  have "octets n = [a, 0, 0]"
    using octets_group3 [of a 0 0] by (simp add: n_def)
  then have "take 1 (octets n) = [a]" by simp
  then show ?thesis
    unfolding n_def [symmetric] sextets_def by (simp add: q)
qed

lemma b64decode_b64encode: "b64decode (b64encode B) = Some B"
proof (induction B rule: b64encode.induct)
  case (1 a b c rest)
  then show ?case
    by (simp add: decode_full_group [OF group3_lt] octets_group3)
next
  case (2 a b)
  show ?case unfolding b64encode.simps by (rule decode_two_bytes)
next
  case (3 a)
  show ?case unfolding b64encode.simps by (rule decode_one_byte)
next
  case 4
  show ?case by simp
qed

lemma range_step_Nil: "0 < m \<Longrightarrow> range_step 0 m = []"
  by (simp add: range_step_def)

lemma range_step_rec:
  assumes "0 < n" "0 < m"
  shows "range_step n m = 0 # map (\<lambda>i. i + m) (range_step (n - m) m)"
proof -
  have "n + m - 1 = (n - 1) + m" using assms by simp
  then have "(n + m - 1) div m = ((n - 1) + m) div m" by (rule arg_cong)
  also have "\<dots> = Suc ((n - 1) div m)" using assms(2) by (simp only: div_add_self2)
  finally have a: "(n + m - 1) div m = Suc ((n - 1) div m)" .
  have b: "(n - m + m - 1) div m = (n - 1) div m"
  proof (cases "m \<le> n")
    case True
    then show ?thesis by simp
  next
    case False
    then show ?thesis using assms by simp
  qed
  have "[0 ..< Suc ((n - 1) div m)] = 0 # map Suc [0 ..< (n - 1) div m]"
    by (simp add: upt_conv_Cons map_Suc_upt del: upt_Suc)
  then show ?thesis
    unfolding range_step_def a b by (simp add: comp_def)
qed

lemma slices_chunks_of:
  "0 < m \<Longrightarrow> map (\<lambda>i. slice s i (i + m)) (range_step (length s) m) = chunks_of m s"
proof (induction m s rule: chunks_of.induct)
  case (1 m s)
  show ?case
  proof (cases "s = []")
    case True
    then show ?thesis using "1.prems" by (simp add: range_step_Nil chunks_of.simps)
  next
    case False
    then have len: "0 < length s" by simp
    have IH: "map (\<lambda>i. slice (drop m s) i (i + m)) (range_step (length (drop m s)) m) =
        chunks_of m (drop m s)"
      using "1.IH" False "1.prems" by simp
    have sl: "slice s (i + m) (i + m + m) = slice (drop m s) i (i + m)" for i
      by (simp add: slice_def add.commute)
    have "map (\<lambda>i. slice s i (i + m)) (range_step (length s) m) =
        slice s 0 m # map (\<lambda>i. slice (drop m s) i (i + m)) (range_step (length s - m) m)"
      by (simp add: range_step_rec [OF len "1.prems"] comp_def sl)
    also have "\<dots> = take m s # chunks_of m (drop m s)"
      using IH by (simp add: slice_def)
    also have "\<dots> = chunks_of m s"
      using False "1.prems" by (subst (2) chunks_of.simps) simp
    finally show ?thesis .
  qed
qed

lemma concat_chunks_of: "0 < m \<Longrightarrow> concat (chunks_of m s) = s"
proof (induction m s rule: chunks_of.induct)
  case (1 m s)
  show ?case
  proof (cases "s = []")
    case True
    then show ?thesis by (simp add: chunks_of.simps)
  next
    case False
    then have "concat (chunks_of m s) = take m s @ concat (chunks_of m (drop m s))"
      using "1.prems" by (subst chunks_of.simps) simp
    then show ?thesis using "1.IH" False "1.prems" by simp
  qed
qed

lemma chunks_of_parts:
  "p \<in> set (chunks_of m s) \<Longrightarrow> length p \<le> m \<and> p \<noteq> [] \<and> set p \<subseteq> set s"
proof (induction m s rule: chunks_of.induct)
  case (1 m s)
  show ?case
  proof (cases "s = [] \<or> m = 0")
    case True
    then show ?thesis using "1.prems" by (simp add: chunks_of.simps)
  next
    case False
    then have "p = take m s \<or> p \<in> set (chunks_of m (drop m s))"
      using "1.prems" by (subst (asm) chunks_of.simps) simp
    then show ?thesis
    proof
      assume "p = take m s"
      then show ?thesis using False by (auto dest: in_set_takeD)
    next
      assume "p \<in> set (chunks_of m (drop m s))"
      then have "length p \<le> m \<and> p \<noteq> [] \<and> set p \<subseteq> set (drop m s)"
        using "1.IH" False by simp
      then show ?thesis by (auto dest: in_set_dropD)
    qed
  qed
qed

lemma split_on_not_Nil: "split_on c s \<noteq> []"
  by (induction s) (auto split: list.splits)

lemma split_on_line:
  "c \<notin> set p \<Longrightarrow> split_on c (p @ c # rest) = p # split_on c rest"
  by (induction p) (auto split: list.splits simp add: split_on_not_Nil)

lemma split_on_terminated:
  "\<forall>p \<in> set ps. c \<notin> set p \<Longrightarrow>
   split_on c (concat (map (\<lambda>p. p @ [c]) ps)) = ps @ [[]]"
  by (induction ps) (simp_all add: split_on_line)

lemma filter_terminated:
  "\<forall>p \<in> set ps. c \<notin> set p \<Longrightarrow>
   filter (\<lambda>x. x \<noteq> c) (concat (map (\<lambda>p. p @ [c]) ps)) = concat ps"
  by (induction ps) (auto simp add: filter_id_conv)

lemma strip_padding_rstrip: "rstrip [EQUALS] s = strip_padding s"
  by (simp add: rstrip_dropWhile strip_padding_def)

lemma b64_strip_and_chunk_chunks:
  "b64_strip_and_chunk B = join [NL] (chunks_of 76 (rstrip [EQUALS] (b64encode B))) @ [NL]"
  by (simp add: b64_strip_and_chunk_def Let_def slices_chunks_of)

lemma b64_body:
  obtains body where "rstrip [EQUALS] (b64encode B) = body" "set body \<subseteq> set b64_alphabet"
    "restore_padding body = b64encode B"
proof -
  obtain body k where
    s: "b64encode B = body @ replicate k EQUALS" "set body \<subseteq> set b64_alphabet" "k < 3"
    using b64encode_shape by blast
  show thesis
    using that [of body] rstrip_b64encode [OF s(1,2)] s(2) restore_padding_body [OF s(1,3)]
    by blast
qed

lemma b64_parts:
  assumes "p \<in> set (chunks_of 76 (rstrip [EQUALS] (b64encode B)))"
  shows "length p \<le> 76 \<and> set p \<subseteq> set b64_alphabet"
proof -
  obtain body where b: "rstrip [EQUALS] (b64encode B) = body" "set body \<subseteq> set b64_alphabet"
    by (rule b64_body)
  have "length p \<le> 76 \<and> p \<noteq> [] \<and> set p \<subseteq> set body"
    using assms unfolding b(1) by (rule chunks_of_parts)
  then show ?thesis using b(2) by blast
qed

lemma not_in_join:
  "c \<notin> set sep \<Longrightarrow> \<forall>p \<in> set ps. c \<notin> set p \<Longrightarrow> c \<notin> set (join sep ps)"
  by (induction sep ps rule: join.induct) simp_all

text \<open>
  C1.  For every byte sequence the chunk encoder returns the base64 text without its
  trailing padding, cut into consecutive pieces of at most 76 characters, joined with
  newlines and followed by one newline.  For the empty byte sequence that is a single
  newline.  The output never holds an equals sign, and none of its lines is longer than
  76 characters.
\<close>

theorem b64_strip_and_chunk_spec:
  "b64_strip_and_chunk B = spec_chunk_encode B \<and>
   b64_strip_and_chunk [] = [NL] \<and>
   EQUALS \<notin> set (b64_strip_and_chunk B) \<and>
   (\<forall>l \<in> set (split_on NL (b64_strip_and_chunk B)). length l \<le> 76)"
proof -
  define parts where "parts = chunks_of 76 (rstrip [EQUALS] (b64encode B))"
  have out: "b64_strip_and_chunk B = join [NL] parts @ [NL]"
    unfolding parts_def by (rule b64_strip_and_chunk_chunks)
  have parts: "length p \<le> 76 \<and> set p \<subseteq> set b64_alphabet" if "p \<in> set parts" for p
    using that unfolding parts_def by (rule b64_parts)
  have spec: "b64_strip_and_chunk B = spec_chunk_encode B"
    by (simp add: b64_strip_and_chunk_chunks spec_chunk_encode_def strip_padding_rstrip)
  have empty: "b64_strip_and_chunk [] = [NL]"
    by (simp add: b64_strip_and_chunk_chunks rstrip_Nil chunks_of.simps)
  have "\<forall>p \<in> set parts. EQUALS \<notin> set p"
    using parts EQUALS_not_b64 by blast
  then have "EQUALS \<notin> set (join [NL] parts)"
    by (intro not_in_join) (simp_all add: cp_defs)
  then have noeq: "EQUALS \<notin> set (b64_strip_and_chunk B)"
    unfolding out by (simp add: cp_defs)
  have lines: "\<forall>l \<in> set (split_on NL (b64_strip_and_chunk B)). length l \<le> 76"
  proof (cases "parts = []")
    case True
    then show ?thesis unfolding out by simp
  next
    case False
    have nonl: "\<forall>p \<in> set parts. NL \<notin> set p" using parts NL_not_b64 by blast
    have "split_on NL (b64_strip_and_chunk B) = parts @ [[]]"
      unfolding out join_terminated [OF False] using nonl by (rule split_on_terminated)
    then show ?thesis using parts by auto
  qed
  show ?thesis by (intro conjI; fact)
qed

theorem b64_strip_and_chunk_spec_witness:
  "str ''aGVsbG8'' \<in> set (split_on NL (b64_strip_and_chunk [104, 101, 108, 108, 111])) \<and>
   length (str ''aGVsbG8'') \<le> 76 \<and>
   b64_strip_and_chunk [104, 101, 108, 108, 111] = str ''aGVsbG8'' @ [NL]"
proof -
  have v: "b64_strip_and_chunk [104, 101, 108, 108, 111] = str ''aGVsbG8'' @ [NL]"
    by (simp add: b64_strip_and_chunk_def b64_char_def b64_alphabet_def str_def rstrip.simps
        range_step_def slice_def sextets_def cp_defs)
  have m: "str ''aGVsbG8'' \<in> set (split_on NL (b64_strip_and_chunk [104, 101, 108, 108, 111]))"
    unfolding v by (simp add: str_def cp_defs)
  from b64_strip_and_chunk_spec [of "[104, 101, 108, 108, 111]"] m
  have l: "length (str ''aGVsbG8'') \<le> 76" by blast
  show ?thesis by (intro conjI; fact)
qed

lemma b64_round_trip_all:
  "b64decode (restore_padding (remove_newlines (b64_strip_and_chunk B))) = Some B"
proof -
  obtain body where b: "rstrip [EQUALS] (b64encode B) = body" "set body \<subseteq> set b64_alphabet"
    "restore_padding body = b64encode B"
    by (rule b64_body)
  define parts where "parts = chunks_of 76 body"
  have out: "b64_strip_and_chunk B = join [NL] parts @ [NL]"
    unfolding parts_def b(1) [symmetric] by (rule b64_strip_and_chunk_chunks)
  have nonl: "\<forall>p \<in> set parts. NL \<notin> set p"
    using b64_parts [of _ B] NL_not_b64 unfolding parts_def b(1) by blast
  have "remove_newlines (b64_strip_and_chunk B) = concat parts"
  proof (cases "parts = []")
    case True
    then show ?thesis unfolding out by (simp add: remove_newlines_def)
  next
    case False
    show ?thesis
      unfolding out join_terminated [OF False] remove_newlines_def
      using nonl by (rule filter_terminated)
  qed
  also have "\<dots> = body" unfolding parts_def by (rule concat_chunks_of) simp
  finally show ?thesis by (simp add: b(3) b64decode_b64encode)
qed

text \<open>
  C6.  Taking the chunk encoder's output, removing the newlines, restoring the padding to
  a multiple of four characters and decoding gives back the byte sequence.
\<close>

theorem b64_round_trip:
  "b64decode (restore_padding (remove_newlines (b64_strip_and_chunk B))) = Some B"
  by (rule b64_round_trip_all)

subsection \<open>The CSV normaliser\<close>

lemmas csv_eval = author_raw_def author_text_def norm_lines_def csv_lines_def splitlines_def
  is_linebreak_def after_break_def rstrip.simps str_def cp_defs



lemma rstrip_subset: "set (rstrip cs s) \<subseteq> set s"
  by (induction s rule: rev_induct) (auto simp add: rstrip_Nil rstrip_snoc)

lemma rstrip_id: "s = [] \<or> last s \<notin> set cs \<Longrightarrow> rstrip cs s = s"
  by (subst rstrip.simps) auto

lemma rstrip_last: "rstrip cs s = [] \<or> last (rstrip cs s) \<notin> set cs"
  by (induction s rule: rev_induct) (simp_all add: rstrip_Nil rstrip_snoc)

lemma strip_trailing_rstrip: "rstrip [COMMA, SPACE, TAB] ln = strip_trailing ln"
  by (simp add: rstrip_dropWhile strip_trailing_def)

lemma linebreak_CR_NL: "is_linebreak CR" "is_linebreak NL"
  by (simp_all add: is_linebreak_def cp_defs)

lemma not_linebreak_COMMA: "\<not> is_linebreak COMMA"
  by (simp add: is_linebreak_def cp_defs)

lemma splitlines_from_no_breaks:
  "l \<in> set (splitlines_from cur s) \<Longrightarrow> \<forall>c \<in> set cur. \<not> is_linebreak c \<Longrightarrow>
   \<forall>c \<in> set l. \<not> is_linebreak c"
  by (induction cur s rule: splitlines_from.induct) (auto split: if_splits)

lemma splitlines_no_breaks:
  "l \<in> set (splitlines s) \<Longrightarrow> c \<in> set l \<Longrightarrow> \<not> is_linebreak c"
  using splitlines_from_no_breaks [of l "[]" s] by (simp add: splitlines_def)

lemma splitlines_from_not_Nil: "cur \<noteq> [] \<or> s \<noteq> [] \<Longrightarrow> splitlines_from cur s \<noteq> []"
  by (induction cur s rule: splitlines_from.induct) auto

lemma splitlines_not_Nil: "s \<noteq> [] \<Longrightarrow> splitlines s \<noteq> []"
  by (simp add: splitlines_def splitlines_from_not_Nil)

lemma csv_lines_splitlines: "csv_lines t = splitlines t"
proof -
  have "rstrip [CR, NL] l = l" if "l \<in> set (splitlines t)" for l
  proof (rule rstrip_id, cases "l = []")
    case False
    then have "\<not> is_linebreak (last l)" using that splitlines_no_breaks last_in_set by blast
    then show "l = [] \<or> last l \<notin> set [CR, NL]" using linebreak_CR_NL by auto
  qed simp
  then show ?thesis unfolding csv_lines_def by (simp add: map_idI)
qed

lemma author_text_spec: "author_text t = spec_normalize t"
  by (simp add: author_text_def norm_lines_def csv_lines_splitlines spec_normalize_def
      strip_trailing_rstrip)

lemma splitlines_from_line:
  "\<forall>c \<in> set l. \<not> is_linebreak c \<Longrightarrow>
   splitlines_from cur (l @ CR # NL # rest) = (cur @ l) # splitlines_from [] rest"
  by (induction l arbitrary: cur) (simp_all add: linebreak_CR_NL after_break_def)

lemma splitlines_terminated:
  "\<forall>l \<in> set ls. \<forall>c \<in> set l. \<not> is_linebreak c \<Longrightarrow>
   splitlines (concat (map (\<lambda>l. l @ [CR, NL]) ls)) = ls"
  unfolding splitlines_def
  by (induction ls) (simp_all add: splitlines_from_line)

lemma author_text_terminated:
  assumes "t \<noteq> []"
  shows "author_text t = concat (map (\<lambda>ln. strip_trailing ln @ [COMMA, CR, NL]) (splitlines t))"
proof -
  have "map (\<lambda>ln. strip_trailing ln @ [COMMA]) (splitlines t) \<noteq> []"
    using splitlines_not_Nil [OF assms] by simp
  then show ?thesis
    unfolding author_text_spec spec_normalize_def
    by (subst join_terminated) (simp_all add: comp_def)
qed

lemma strip_trailing_normalized:
  assumes "t \<noteq> []"
  shows "normalized_lines (map strip_trailing (splitlines t))"
proof -
  have "list_all (\<lambda>c. \<not> is_linebreak c) (strip_trailing l) \<and>
        (strip_trailing l = [] \<or> last (strip_trailing l) \<notin> set [COMMA, SPACE, TAB])"
    if l: "l \<in> set (splitlines t)" for l
  proof
    have "set (strip_trailing l) \<subseteq> set l"
      unfolding strip_trailing_rstrip [symmetric] by (rule rstrip_subset)
    then show "list_all (\<lambda>c. \<not> is_linebreak c) (strip_trailing l)"
      using splitlines_no_breaks [OF l] by (auto simp add: list_all_iff)
    show "strip_trailing l = [] \<or> last (strip_trailing l) \<notin> set [COMMA, SPACE, TAB]"
      unfolding strip_trailing_rstrip [symmetric] by (rule rstrip_last)
  qed
  then show ?thesis
    unfolding normalized_lines_def using splitlines_not_Nil [OF assms]
    by (simp add: list_all_iff)
qed

lemma author_text_render:
  "t \<noteq> [] \<Longrightarrow> author_text t = render_lines (map strip_trailing (splitlines t))"
  by (simp add: author_text_terminated render_lines_def comp_def)

lemma render_lines_fixed:
  assumes "normalized_lines ls"
  shows "author_text (render_lines ls) = render_lines ls"
proof -
  define qs where "qs = map (\<lambda>l. l @ [COMMA]) ls"
  have ls: "ls \<noteq> []" and
    line: "\<And>l. l \<in> set ls \<Longrightarrow>
      (\<forall>c \<in> set l. \<not> is_linebreak c) \<and> (l = [] \<or> last l \<notin> set [COMMA, SPACE, TAB])"
    using assms by (auto simp add: normalized_lines_def list_all_iff)
  have r: "render_lines ls = concat (map (\<lambda>q. q @ [CR, NL]) qs)"
    by (simp add: render_lines_def qs_def comp_def)
  have "\<forall>q \<in> set qs. \<forall>c \<in> set q. \<not> is_linebreak c"
    using line not_linebreak_COMMA by (auto simp add: qs_def)
  then have sp: "splitlines (render_lines ls) = qs"
    unfolding r by (rule splitlines_terminated)
  have "rstrip [COMMA, SPACE, TAB] (l @ [COMMA]) = l" if "l \<in> set ls" for l
    using line [OF that] by (simp add: rstrip_snoc rstrip_id)
  then have "map (\<lambda>ln. rstrip [COMMA, SPACE, TAB] ln @ [COMMA]) qs = qs"
    by (simp add: qs_def)
  then have "author_text (render_lines ls) = join [CR, NL] qs @ [CR, NL]"
    by (simp add: author_text_def norm_lines_def csv_lines_splitlines sp)
  also have "\<dots> = concat (map (\<lambda>q. q @ [CR, NL]) qs)"
    using ls by (intro join_terminated) (simp add: qs_def)
  finally show ?thesis by (simp add: r)
qed

text \<open>
  C4.  For a non-empty text the normaliser splits it into lines without their terminators,
  removes from the right end of every line all commas, spaces and tabs, appends one comma,
  joins the lines with CRLF and appends a CRLF, so that every line, the last one too, ends
  in a comma and CRLF.  \<open>a,b,c\<close> becomes \<open>a,b,c,\<close> CRLF, and \<open>x,\<close> CRLF \<open>y\<close> becomes
  \<open>x,\<close> CRLF \<open>y,\<close> CRLF.
\<close>

theorem csv_normalize_lines:
  assumes "t \<noteq> []"
  shows "author_text t = spec_normalize t \<and>
         csv_lines t = splitlines t \<and>
         splitlines t \<noteq> [] \<and>
         (\<forall>l \<in> set (splitlines t). \<forall>c \<in> set l. \<not> is_linebreak c) \<and>
         author_text t =
           concat (map (\<lambda>ln. strip_trailing ln @ [COMMA, CR, NL]) (splitlines t)) \<and>
         author_text (str ''a,b,c'') = str ''a,b,c,'' @ [CR, NL] \<and>
         author_text (str ''x,'' @ [CR, NL] @ str ''y'') =
           str ''x,'' @ [CR, NL] @ str ''y,'' @ [CR, NL]"
proof -
  have e1: "author_text (str ''a,b,c'') = str ''a,b,c,'' @ [CR, NL]"
    by (simp add: csv_eval)
  have e2: "author_text (str ''x,'' @ [CR, NL] @ str ''y'') =
      str ''x,'' @ [CR, NL] @ str ''y,'' @ [CR, NL]"
    by (simp add: csv_eval)
  have nb: "\<forall>l \<in> set (splitlines t). \<forall>c \<in> set l. \<not> is_linebreak c"
    using splitlines_no_breaks by blast
  note author_text_spec [of t] csv_lines_splitlines [of t] splitlines_not_Nil [OF assms] nb
    author_text_terminated [OF assms] e1 e2
  then show ?thesis by (intro conjI)
qed

theorem csv_normalize_lines_witness:
  "author_text (str ''a , '' @ [NL] @ str ''b'') = spec_normalize (str ''a , '' @ [NL] @ str ''b'') \<and>
   author_text (str ''a , '' @ [NL] @ str ''b'') = str ''a,'' @ [CR, NL] @ str ''b,'' @ [CR, NL] \<and>
   splitlines (str ''a , '' @ [NL] @ str ''b'') = [str ''a , '', str ''b'']"
proof -
  have ne: "str ''a , '' @ [NL] @ str ''b'' \<noteq> []" by (simp add: str_def)
  have v: "author_text (str ''a , '' @ [NL] @ str ''b'') =
      str ''a,'' @ [CR, NL] @ str ''b,'' @ [CR, NL]"
    by (simp add: csv_eval)
  have s: "splitlines (str ''a , '' @ [NL] @ str ''b'') = [str ''a , '', str ''b'']"
    by (simp add: csv_eval)
  from csv_normalize_lines [OF ne] v s show ?thesis by (intro conjI) simp_all
qed

text \<open>
  C5.  The empty string should give one line of a comma and CRLF, the three bytes of
  \<open>,\<close> CR LF.  The code gives the two bytes CR LF: the empty text splits into no line, so
  no comma is written and only the final CRLF is appended.  That output is a line without
  its comma, and normalising it once more gives the comma and CRLF.
\<close>

theorem csv_normalize_empty:
  "author_text [] = [CR, NL] \<and>
   author_raw [] = Inr [13, 10] \<and>
   author_raw [] \<noteq> Inr [44, 13, 10] \<and>
   author_text [CR, NL] = [COMMA, CR, NL]"
  by (simp add: csv_eval)

text \<open>
  C7, as amended.  The normaliser is idempotent on its normal form: a text of at least one
  line, every line free of line breaks and not ending in a comma, space or tab, each
  followed by exactly one comma and CRLF, is returned unchanged.  The output for a
  non-empty text is in that normal form, so normalising a non-empty text twice gives the
  same as normalising it once.
\<close>

theorem csv_normalize_idempotent:
  "(t \<noteq> [] \<longrightarrow>
      author_text (author_text t) = author_text t \<and>
      normalized_lines (map strip_trailing (splitlines t)) \<and>
      author_text t = render_lines (map strip_trailing (splitlines t))) \<and>
   (normalized_lines ls \<longrightarrow> author_text (render_lines ls) = render_lines ls)"
proof (intro conjI impI)
  assume t: "t \<noteq> []"
  show n: "normalized_lines (map strip_trailing (splitlines t))"
    using t by (rule strip_trailing_normalized)
  show r: "author_text t = render_lines (map strip_trailing (splitlines t))"
    using t by (rule author_text_render)
  show "author_text (author_text t) = author_text t"
    unfolding r using n by (rule render_lines_fixed)
next
  assume "normalized_lines ls"
  then show "author_text (render_lines ls) = render_lines ls"
    by (rule render_lines_fixed)
qed

theorem csv_normalize_idempotent_witness:
  "str ''a , '' @ [NL] @ str ''b'' \<noteq> [] \<and>
   author_text (author_text (str ''a , '' @ [NL] @ str ''b'')) =
     author_text (str ''a , '' @ [NL] @ str ''b'') \<and>
   normalized_lines [str ''a'', str ''b''] \<and>
   author_text (render_lines [str ''a'', str ''b'']) = render_lines [str ''a'', str ''b'']"
proof -
  have ne: "str ''a , '' @ [NL] @ str ''b'' \<noteq> []" by (simp add: str_def)
  have nl: "normalized_lines [str ''a'', str ''b'']"
    by (simp add: normalized_lines_def is_linebreak_def str_def cp_defs)
  from csv_normalize_idempotent [of "str ''a , '' @ [NL] @ str ''b''" "[str ''a'', str ''b'']"]
    ne nl
  show ?thesis by blast
qed

text \<open>
  A line that ends in exactly one comma and CRLF need not be in normal form: the text
  \<open>a ,\<close> CRLF loses the space before its comma.
\<close>

theorem csv_normalize_idempotent_counterexample:
  "author_text (str ''a ,'' @ [CR, NL]) \<noteq> str ''a ,'' @ [CR, NL]"
  by (simp add: csv_eval)

subsection \<open>The compressor and the request handler\<close>

lemma chunk_newline_iff: "b64_strip_and_chunk B = [NL] \<longleftrightarrow> B = []"
proof
  assume a: "b64_strip_and_chunk B = [NL]"
  have "Some B = b64decode (restore_padding (remove_newlines (b64_strip_and_chunk B)))"
    by (simp add: b64_round_trip_all)
  also have "\<dots> = Some []"
    unfolding a by (simp add: remove_newlines_def restore_padding_def)
  finally show "B = []" by simp
next
  assume "B = []"
  then show "b64_strip_and_chunk B = [NL]"
    by (simp add: b64_strip_and_chunk_chunks rstrip_Nil chunks_of.simps)
qed

lemma zlib_compress_empty_octets: "zlib_compress_empty = [0x78, 0xDA, 3, 0, 0, 0, 0, 1]"
  by (simp add: zlib_compress_empty_def zlib_stream_def be32_def adler32_def)

lemmas b64_eval = b64_strip_and_chunk_def b64_char_def b64_alphabet_def str_def rstrip.simps
  range_step_def slice_def sextets_def cp_defs

text \<open>
  C8, as amended.  Compressing the empty byte sequence gives a zlib stream that is not
  empty: the header, the deflate data and the checksum, eight octets with zlib's deflate
  data for the empty input.  Chunk-encoding it gives one data line, \<open>eNoDAAAAAAE\<close>, and
  a newline.  Whatever the deflate data, the block is never the single newline: that is
  the block of the empty byte sequence only.
\<close>

theorem zlib_empty_chunk:
  "b64_strip_and_chunk (zlib_stream d []) \<noteq> [NL] \<and>
   zlib_compress_empty = [0x78, 0xDA, 3, 0, 0, 0, 0, 1] \<and>
   b64_strip_and_chunk zlib_compress_empty = str ''eNoDAAAAAAE'' @ [NL] \<and>
   (b64_strip_and_chunk B = [NL] \<longleftrightarrow> B = [])"
proof -
  have "zlib_stream d [] \<noteq> []" by (simp add: zlib_stream_def)
  then have a: "b64_strip_and_chunk (zlib_stream d []) \<noteq> [NL]"
    by (simp add: chunk_newline_iff)
  have b: "b64_strip_and_chunk zlib_compress_empty = str ''eNoDAAAAAAE'' @ [NL]"
    unfolding zlib_compress_empty_octets by (simp add: b64_eval)
  show ?thesis
    using a b zlib_compress_empty_octets chunk_newline_iff [of B] by (intro conjI)
qed

text \<open>The block for the compressed empty input is not a single newline.\<close>

theorem zlib_empty_chunk_counterexample:
  "b64_strip_and_chunk zlib_compress_empty \<noteq> [NL]"
  unfolding zlib_compress_empty_octets by (simp add: b64_eval)

lemma utf8_encode_ok:
  "\<forall>c \<in> set s. c < 55296 \<Longrightarrow> \<exists>bs. utf8_encode s = Inr bs"
  by (induction s) auto

lemma b64_alphabet_ascii: "c \<in> set b64_alphabet \<Longrightarrow> c < 128"
  unfolding b64_alphabet_codes by auto

lemma b64_strip_and_chunk_ascii:
  assumes "c \<in> set (b64_strip_and_chunk B)"
  shows "c < 128"
proof -
  define parts where "parts = chunks_of 76 (rstrip [EQUALS] (b64encode B))"
  have out: "b64_strip_and_chunk B = join [NL] parts @ [NL]"
    unfolding parts_def by (rule b64_strip_and_chunk_chunks)
  have parts: "\<forall>p \<in> set parts. c \<notin> set p" if "\<not> c < 128"
    using that b64_parts [of _ B] b64_alphabet_ascii unfolding parts_def by blast
  show ?thesis
  proof (rule ccontr)
    assume n: "\<not> c < 128"
    then have "c \<notin> set [NL]" by (simp add: cp_defs)
    then have "c \<notin> set (join [NL] parts)" using parts [OF n] by (rule not_in_join)
    then show False using assms n unfolding out by (simp add: cp_defs)
  qed
qed

lemma escape_ffmeta_ascii:
  "\<forall>c \<in> set v. c < 128 \<Longrightarrow> \<forall>c \<in> set (escape_ffmeta v). c < 128"
  unfolding escape_ffmeta_chars by (auto simp add: escape_char_def cp_defs split: if_splits)

lemma ffmeta_content_ascii:
  assumes "\<forall>(k, v) \<in> set items. (\<forall>c \<in> set k. c < 128) \<and> (\<forall>c \<in> set v. c < 128)"
  shows "\<forall>c \<in> set (ffmeta_content items). c < 128"
proof -
  have "\<forall>c \<in> set (k @ [EQUALS] @ escape_ffmeta v @ [NL]). c < 128"
    if "(k, v) \<in> set items" for k v
    using that assms escape_ffmeta_ascii [of v] by (auto simp add: cp_defs)
  then show ?thesis
    unfolding ffmeta_content_terminated by (auto simp add: str_def cp_defs)
qed

lemma metadata_ascii:
  assumes "\<forall>c \<in> set ttl. c < 128"
  shows "\<forall>c \<in> set (ffmeta_content (metadata ttl (b64_strip_and_chunk A) (b64_strip_and_chunk C))).
           c < 128"
proof (rule ffmeta_content_ascii)
  have lit: "\<forall>c \<in> set (str ''TITLE''). c < 128" "\<forall>c \<in> set (str ''ALBUM''). c < 128"
    "\<forall>c \<in> set (str ''Glyph Tools''). c < 128" "\<forall>c \<in> set (str ''AUTHOR''). c < 128"
    "\<forall>c \<in> set (str ''COMPOSER''). c < 128"
    "\<forall>c \<in> set (str ''v1-Pacman Glyph Composer''). c < 128"
    "\<forall>c \<in> set (str ''CUSTOM1''). c < 128" "\<forall>c \<in> set (str ''CUSTOM2''). c < 128"
    "\<forall>c \<in> set (str ''26cols''). c < 128"
    by (simp_all add: str_def)
  show "\<forall>(k, v) \<in> set (metadata ttl (b64_strip_and_chunk A) (b64_strip_and_chunk C)).
          (\<forall>c \<in> set k. c < 128) \<and> (\<forall>c \<in> set v. c < 128)"
    unfolding metadata_def using lit assms b64_strip_and_chunk_ascii by simp
qed

lemma try_body_ok:
  assumes "author_raw csv_text = Inr raw" and "\<forall>c \<in> set ttl. c < 128"
  shows "try_body (env_ok z) ttl csv_text fs =
    (Inr (), insert TmpOut fs,
     Some (ffmeta_content (metadata ttl (b64_strip_and_chunk (z raw)) (b64_strip_and_chunk (z [])))))"
proof -
  define doc where
    "doc = ffmeta_content (metadata ttl (b64_strip_and_chunk (z raw)) (b64_strip_and_chunk (z [])))"
  have "\<forall>c \<in> set doc. c < 128" unfolding doc_def using assms(2) by (rule metadata_ascii)
  then have "\<forall>c \<in> set doc. c < 55296" by auto
  then obtain bs where bs: "utf8_encode doc = Inr bs" using utf8_encode_ok by blast
  have p: "prepare_audio (env_ok z) = Inr ()"
    by (simp add: prepare_audio_def env_ok_def)
  have b: "build_document (env_ok z) ttl csv_text = Inr doc"
    by (simp add: build_document_def assms(1) doc_def env_ok_def)
  show ?thesis
    unfolding try_body_def p b doc_def [symmetric] by (simp add: bs) (simp add: env_ok_def)
qed

lemma author_raw_abc: "author_raw (str ''a,b,c'') = Inr [97, 44, 98, 44, 99, 44, 13, 10]"
  by (simp add: csv_eval)

lemma embed_ok:
  assumes "\<forall>c \<in> set (form_title t). c < 128"
  shows "embed (env_ok z) (req_ok\<lparr>title := t\<rparr>) =
     \<lparr>response = SendFile, files = {TmpOgg, TmpOut},
      injected = Some (ffmeta_content (metadata (form_title t)
         (b64_strip_and_chunk (z [97, 44, 98, 44, 99, 44, 13, 10])) (b64_strip_and_chunk (z []))))\<rparr>"
proof -
  have n: "str ''a.ogg'' \<noteq> []" by (simp add: str_def)
  have s: "save_ok (env_ok z)" by (simp add: env_ok_def)
  show ?thesis
    unfolding embed_def req_ok_def
    by (simp add: n s try_body_ok [OF author_raw_abc assms]) auto
qed

lemma form_title_cases:
  "form_title None = str ''Glyph''" "form_title (Some []) = str ''Glyph''"
  "t \<noteq> [] \<Longrightarrow> form_title (Some t) = t"
  by (simp_all add: form_title_def)

lemma injected_document:
  assumes "injected (embed e r) = Some doc"
  shows "\<exists>a c. doc = ffmeta_content (metadata (form_title (title r)) a c)"
  using assms
  unfolding embed_def try_body_def build_document_def
  by (auto simp add: Let_def split: option.splits sum.splits if_splits prod.splits)


lemma embed_keeps_intermediate:
  assumes "audio r = Some name" "name \<noteq> []" "csv r = Some csv_text" "save_ok e"
  shows "TmpOgg \<in> files (embed e r) \<and> TmpIn \<notin> files (embed e r)"
  using assms
  unfolding embed_def try_body_def
  by (auto simp add: Let_def split: option.splits sum.splits if_splits prod.splits)

text \<open>
  C9.  Every temporary file of a request, the saved upload, the intermediate Ogg file
  and the output file, should be removed on every way out of the handler.  The handler
  removes the saved upload only: on the path where everything succeeds the request ends
  with the intermediate file and the output file still in place.
\<close>

theorem embed_leaves_temp_files:
  "response (embed (env_ok z) req_ok) = SendFile \<and>
   files (embed (env_ok z) req_ok) = {TmpOgg, TmpOut}"
proof -
  have "\<forall>c \<in> set (form_title None). c < 128" by (simp add: form_title_def str_def)
  from embed_ok [OF this, of z] show ?thesis by (simp add: req_ok_def)
qed

text \<open>
  C10.  A missing or empty \<open>title\<close> field gives the tag value \<open>Glyph\<close>, any other title
  is taken as it is; whenever a metadata document is handed to ffmpeg it is the document
  of the six tags with that title first, so its second line is \<open>TITLE=\<close> and the escaped
  title.
\<close>

theorem embed_title:
  "form_title None = str ''Glyph'' \<and>
   form_title (Some []) = str ''Glyph'' \<and>
   (t \<noteq> [] \<longrightarrow> form_title (Some t) = t) \<and>
   (injected (embed e r) = Some doc \<longrightarrow>
      (\<exists>a c. doc = ffmeta_content (metadata (form_title (title r)) a c)) \<and>
      (\<exists>rest. doc = str '';FFMETADATA1'' @ [NL] @ str ''TITLE'' @ [EQUALS] @
                      escape_ffmeta (form_title (title r)) @ [NL] @ rest))"
proof (intro conjI impI)
  assume "injected (embed e r) = Some doc"
  then obtain a c where d: "doc = ffmeta_content (metadata (form_title (title r)) a c)"
    using injected_document by blast
  then show "\<exists>a c. doc = ffmeta_content (metadata (form_title (title r)) a c)" by blast
  show "\<exists>rest. doc = str '';FFMETADATA1'' @ [NL] @ str ''TITLE'' @ [EQUALS] @
                      escape_ffmeta (form_title (title r)) @ [NL] @ rest"
    unfolding d ffmeta_content_terminated metadata_def by simp
qed (simp_all add: form_title_cases)

theorem embed_title_witness:
  "str ''Song'' \<noteq> [] \<and> form_title (Some (str ''Song'')) = str ''Song'' \<and>
   injected (embed (env_ok zlib_stored) (req_ok\<lparr>title := Some (str ''Song'')\<rparr>)) =
     Some (ffmeta_content (metadata (str ''Song'')
       (b64_strip_and_chunk (zlib_stored [97, 44, 98, 44, 99, 44, 13, 10]))
       (b64_strip_and_chunk (zlib_stored [])))) \<and>
   (\<exists>rest. ffmeta_content (metadata (str ''Song'')
       (b64_strip_and_chunk (zlib_stored [97, 44, 98, 44, 99, 44, 13, 10]))
       (b64_strip_and_chunk (zlib_stored []))) =
     str '';FFMETADATA1'' @ [NL] @ str ''TITLE'' @ [EQUALS] @ str ''Song'' @ [NL] @ rest)"
proof -
  have ne: "str ''Song'' \<noteq> []" by (simp add: str_def)
  have ft: "form_title (Some (str ''Song'')) = str ''Song''"
    by (simp add: form_title_def str_def)
  have "\<forall>c \<in> set (form_title (Some (str ''Song''))). c < 128"
    unfolding ft by (simp add: str_def)
  from embed_ok [OF this, of zlib_stored]
  have inj: "injected (embed (env_ok zlib_stored) (req_ok\<lparr>title := Some (str ''Song'')\<rparr>)) =
     Some (ffmeta_content (metadata (str ''Song'')
       (b64_strip_and_chunk (zlib_stored [97, 44, 98, 44, 99, 44, 13, 10]))
       (b64_strip_and_chunk (zlib_stored []))))"
    by (simp add: ft)
  have esc: "escape_ffmeta (str ''Song'') = str ''Song''"
    by (simp add: escape_ffmeta_chars escape_char_def str_def cp_defs)
  from embed_title [of "str ''Song''" "env_ok zlib_stored" "req_ok\<lparr>title := Some (str ''Song'')\<rparr>"
      "ffmeta_content (metadata (str ''Song'')
       (b64_strip_and_chunk (zlib_stored [97, 44, 98, 44, 99, 44, 13, 10]))
       (b64_strip_and_chunk (zlib_stored [])))"] ne inj
  have "\<exists>rest. ffmeta_content (metadata (str ''Song'')
       (b64_strip_and_chunk (zlib_stored [97, 44, 98, 44, 99, 44, 13, 10]))
       (b64_strip_and_chunk (zlib_stored []))) =
     str '';FFMETADATA1'' @ [NL] @ str ''TITLE'' @ [EQUALS] @
       escape_ffmeta (form_title (title (req_ok\<lparr>title := Some (str ''Song'')\<rparr>))) @ [NL] @ rest"
    by blast
  then show ?thesis using ne ft inj by (simp add: esc)
qed

end
